theory Spec2Isabelle
  imports Main "HOL-Library.Word" "HOL-Library.Char_ord" "HOL-Library.List_Lexorder"
begin

section \<open>The word counter of hw-intro/words/main.c\<close>

text \<open>
  The program reads byte streams and either counts the words in them (\<open>num_words\<close>) or
  records every word in a frequency table (\<open>count_words\<close>). A stream is the list of
  bytes that \<open>fgetc\<close> delivers before it returns \<open>EOF\<close>; a byte is a \<open>char\<close>. The C type
  \<open>int\<close> is a 32-bit two's-complement word: \<open>+\<close> wraps around and comparisons read the
  word through \<open>sint\<close>, which is what the compilers of the course's x86-64 platform
  produce for the signed overflow that ISO C leaves undefined.
\<close>

type_synonym cint = "32 word"

subsection \<open>The character classes of ctype.h\<close>

text \<open>
  The program never calls \<open>setlocale\<close>, so \<open>isalpha\<close> and \<open>tolower\<close> are those of the
  "C" locale: the letters are the 52 ASCII letters, and \<open>tolower\<close> moves an upper-case
  letter 32 code points up and leaves every other byte alone.
\<close>

definition isalpha :: "char \<Rightarrow> bool" where
  "isalpha c =
     (let n = (of_char c :: nat) in (65 \<le> n \<and> n \<le> 90) \<or> (97 \<le> n \<and> n \<le> 122))"

definition tolower :: "char \<Rightarrow> char" where
  "tolower c =
     (let n = (of_char c :: nat) in if 65 \<le> n \<and> n \<le> 90 then char_of (n + 32) else c)"

subsection \<open>Total word count: \<open>num_words\<close>\<close>

text \<open>
  The state of the loop is the triple of the locals \<open>num_words\<close>, \<open>in_word\<close> and
  \<open>word_length\<close>. \<open>num_words_body\<close> is one iteration on the byte \<open>c\<close>,
  \<open>num_words_loop\<close> the \<open>while\<close> loop over the stream, \<open>num_words_end\<close> the test after
  the loop for a file that ends inside a word.
\<close>

fun num_words_body :: "char \<Rightarrow> cint \<times> cint \<times> cint \<Rightarrow> cint \<times> cint \<times> cint" where
  "num_words_body c (num_words, in_word, word_length) =
     (if isalpha c then
        (num_words, (if in_word = 0 then 1 else in_word), word_length + 1)
      else
        ((if in_word \<noteq> 0 \<and> 1 < sint word_length then num_words + 1 else num_words), 0, 0))"

fun num_words_loop :: "char list \<Rightarrow> cint \<times> cint \<times> cint \<Rightarrow> cint \<times> cint \<times> cint" where
  "num_words_loop [] s = s"
| "num_words_loop (c # cs) s = num_words_loop cs (num_words_body c s)"

fun num_words_end :: "cint \<times> cint \<times> cint \<Rightarrow> cint" where
  "num_words_end (num_words, in_word, word_length) =
     (if in_word \<noteq> 0 \<and> 1 < sint word_length then num_words + 1 else num_words)"

definition num_words :: "char list \<Rightarrow> cint" where
  "num_words infile = num_words_end (num_words_loop infile (0, 0, 0))"

subsection \<open>Pointers and the word buffer\<close>

text \<open>
  A pointer is \<open>NULL\<close> or points to a value. A \<open>FILE *\<close> points to the bytes the stream
  still holds; the table handle \<open>WordCount **wclist\<close> points to the list it designates.
\<close>

datatype 'a ptr = NULL | Ptr 'a

definition NUL :: char where
  "NUL = CHR 0x00"

definition MAX_WORD_LEN :: nat where
  "MAX_WORD_LEN = 64"

text \<open>
  The local array \<open>char word[MAX_WORD_LEN + 1]\<close> is a list of cells; a cell is \<open>None\<close>
  until the function first writes it, as the array is not initialised. \<open>store\<close> is the
  assignment \<open>word[i] = c\<close> and fails (\<open>None\<close>) when \<open>i\<close> is outside the array.
  \<open>c_string\<close> is what a callee reads through the pointer \<open>word\<close>: the bytes before the
  first \<open>NUL\<close>; it fails when it meets an unwritten cell or the end of the array first.
  \<open>uninitialised\<close> is the array as the declaration leaves it.
\<close>

type_synonym buffer = "char option list"

definition store :: "buffer \<Rightarrow> cint \<Rightarrow> char \<Rightarrow> buffer option" where
  "store buf i c =
     (if 0 \<le> sint i \<and> nat (sint i) < length buf then Some (buf[nat (sint i) := Some c])
      else None)"

fun c_string :: "buffer \<Rightarrow> string option" where
  "c_string [] = None"
| "c_string (None # cells) = None"
| "c_string (Some c # cells) =
     (if c = NUL then Some [] else map_option ((#) c) (c_string cells))"

definition uninitialised :: buffer where
  "uninitialised = replicate (MAX_WORD_LEN + 1) None"

subsection \<open>Word frequency count: \<open>count_words\<close>\<close>

text \<open>
  \<open>add_word\<close> is declared in word_count.h, which is not among the sources, so
  \<open>count_words\<close> takes it as the parameter \<open>add\<close>: a function from the table and the
  string passed to the new table. The state of the loop is the buffer (the local
  \<open>word\<close>), \<open>index\<close> and the table behind \<open>wclist\<close>. The result \<open>None\<close> stands for an
  access outside the buffer or a string without terminator, which C leaves undefined.
\<close>

fun count_words_body ::
  "('wl \<Rightarrow> string \<Rightarrow> 'wl) \<Rightarrow> char \<Rightarrow> buffer \<times> cint \<times> 'wl \<Rightarrow> (buffer \<times> cint \<times> 'wl) option" where
  "count_words_body add c (buf, index, wclist) =
     (if isalpha c then
        (if sint index < int MAX_WORD_LEN then
           (case store buf index (tolower c) of
              None \<Rightarrow> None
            | Some buf' \<Rightarrow> Some (buf', index + 1, wclist))
         else Some (buf, index, wclist))
      else if 1 < sint index then
        (case store buf index NUL of
           None \<Rightarrow> None
         | Some buf' \<Rightarrow>
             (case c_string buf' of
                None \<Rightarrow> None
              | Some w \<Rightarrow> Some (buf', 0, add wclist w)))
      else Some (buf, index, wclist))"

fun count_words_loop ::
  "('wl \<Rightarrow> string \<Rightarrow> 'wl) \<Rightarrow> char list \<Rightarrow> buffer \<times> cint \<times> 'wl \<Rightarrow> (buffer \<times> cint \<times> 'wl) option" where
  "count_words_loop add [] s = Some s"
| "count_words_loop add (c # cs) s =
     (case count_words_body add c s of
        None \<Rightarrow> None
      | Some s' \<Rightarrow> count_words_loop add cs s')"

fun count_words_end :: "('wl \<Rightarrow> string \<Rightarrow> 'wl) \<Rightarrow> buffer \<times> cint \<times> 'wl \<Rightarrow> 'wl option" where
  "count_words_end add (buf, index, wclist) =
     (if 1 < sint index then
        (case store buf index NUL of
           None \<Rightarrow> None
         | Some buf' \<Rightarrow>
             (case c_string buf' of
                None \<Rightarrow> None
              | Some w \<Rightarrow> Some (add wclist w)))
      else Some wclist)"

text \<open>
  The function returns its \<open>int\<close> and leaves the table behind the handle in a new state;
  the model returns both.
\<close>

fun count_words ::
  "('wl \<Rightarrow> string \<Rightarrow> 'wl) \<Rightarrow> 'wl ptr \<Rightarrow> char list ptr \<Rightarrow> (cint \<times> 'wl ptr) option" where
  "count_words add (Ptr wl) (Ptr bytes) =
     (case count_words_loop add bytes (uninitialised, 0, wl) of
        None \<Rightarrow> None
      | Some s \<Rightarrow>
          (case count_words_end add s of
             None \<Rightarrow> None
           | Some wl' \<Rightarrow> Some (0, Ptr wl')))"
| "count_words add wclist infile = Some (1, wclist)"

subsection \<open>The frequency table\<close>

text \<open>
  Modelled from the spec: the record type \<open>WordCount\<close> of word_count.h, which is not
  among the sources. Section 3 of the specification: a word record is a word and a
  non-negative count, and the table is an ordered collection of records.
\<close>

record WordCount =
  word :: string
  count :: nat

text \<open>
  Modelled from the spec: \<open>init_words\<close> of word_count.c, which is not among the
  sources. Section 4.2: \<open>init\<close> returns an empty table.
\<close>

definition init_words :: "WordCount list" where
  "init_words = []"

text \<open>
  Modelled from the spec: \<open>add_word\<close> of word_count.c, which is not among the sources.
  Section 4.2, \<open>increment\<close>: look the word up by exact string match; if it is present,
  add 1 to its count; otherwise append a new record with count 1.
\<close>

fun add_word :: "WordCount list \<Rightarrow> string \<Rightarrow> WordCount list" where
  "add_word [] w = [\<lparr>word = w, count = 1\<rparr>]"
| "add_word (wc # wcs) w =
     (if word wc = w then wc\<lparr>count := count wc + 1\<rparr> # wcs else wc # add_word wcs w)"

text \<open>
  Modelled from the spec: \<open>wordcount_sort\<close> of word_count.c, which is not among the
  sources. Section 4.2, \<open>sort\<close>: reorder the table by the comparator the caller
  supplies. The model inserts every record before the first one the comparator puts
  after it.
\<close>

fun wordcount_insert ::
  "(WordCount \<Rightarrow> WordCount \<Rightarrow> bool) \<Rightarrow> WordCount \<Rightarrow> WordCount list \<Rightarrow> WordCount list" where
  "wordcount_insert cmp wc [] = [wc]"
| "wordcount_insert cmp wc (x # xs) =
     (if cmp wc x then wc # x # xs else x # wordcount_insert cmp wc xs)"

definition wordcount_sort ::
  "(WordCount \<Rightarrow> WordCount \<Rightarrow> bool) \<Rightarrow> WordCount list \<Rightarrow> WordCount list" where
  "wordcount_sort cmp wclist = foldr (wordcount_insert cmp) wclist []"

subsection \<open>The comparator \<open>wordcount_less\<close>\<close>

text \<open>
  \<open>strcmp\<close> compares two strings byte by byte, the bytes read as \<open>unsigned char\<close>; a
  string is the list of its bytes before the terminator, which counts as the byte 0 when
  one string ends first. ISO C fixes the sign of the result only; the model returns the
  difference of the first two bytes that differ.
\<close>

fun strcmp :: "string \<Rightarrow> string \<Rightarrow> int" where
  "strcmp [] [] = 0"
| "strcmp [] (b # bs) = - int (of_char b)"
| "strcmp (a # as) [] = int (of_char a)"
| "strcmp (a # as) (b # bs) =
     (if a = b then strcmp as bs else int (of_char a) - int (of_char b))"

definition wordcount_less :: "WordCount \<Rightarrow> WordCount \<Rightarrow> bool" where
  "wordcount_less wc1 wc2 =
     (if count wc1 = count wc2 then strcmp (word wc1) (word wc2) < 0
      else count wc1 < count wc2)"

subsection \<open>The driver \<open>main\<close>\<close>

text \<open>
  The command line reaches \<open>main\<close> through \<open>getopt_long\<close>: \<open>opts\<close> is the sequence of
  option characters it returns before \<open>-1\<close>, \<open>files\<close> the arguments from \<open>optind\<close> on.
  \<open>fopen\<close> maps a file name to its stream, or to \<open>NULL\<close>. \<open>parse_flags\<close> is the loop
  over the options; \<open>None\<close> is its early \<open>return display_help()\<close>.
\<close>

fun parse_flags :: "char list \<Rightarrow> bool \<times> bool \<Rightarrow> (bool \<times> bool) option" where
  "parse_flags [] (count_mode, freq_mode) = Some (count_mode, freq_mode)"
| "parse_flags (opt # opts) (count_mode, freq_mode) =
     (if opt = CHR ''c'' then parse_flags opts (True, False)
      else if opt = CHR ''f'' then parse_flags opts (False, True)
      else if opt = CHR ''h'' then None
      else None)"

text \<open>
  What the process writes to standard output. Modelled from the spec: \<open>fprint_words\<close>
  of word_count.c, which is not among the sources, prints the records in table order
  (section 4.2, \<open>for_each\<close>); the report carries the table it is given.
\<close>

datatype report =
    HelpText
  | SpecifyMode
  | TotalWords cint
  | WordFrequencies "WordCount list"
  | NoReport

definition display_help :: cint where
  "display_help = 0"

text \<open>
  The state of the driver is \<open>total_words\<close>, the global \<open>word_counts\<close> and the names that
  \<open>perror\<close> has reported. \<open>call_count_words\<close> is the statement
  \<open>count_words(&word_counts, infile);\<close> of both call sites: the value returned is
  not used, and the result is the table behind the global afterwards.
\<close>

definition call_count_words :: "WordCount list \<Rightarrow> char list ptr \<Rightarrow> WordCount list option" where
  "call_count_words word_counts infile =
     (case count_words add_word (Ptr word_counts) infile of
        None \<Rightarrow> None
      | Some (rc, NULL) \<Rightarrow> Some word_counts
      | Some (rc, Ptr word_counts') \<Rightarrow> Some word_counts')"

fun main_stdin ::
  "bool \<Rightarrow> bool \<Rightarrow> char list \<Rightarrow> cint \<times> WordCount list \<times> string list
     \<Rightarrow> (cint \<times> WordCount list \<times> string list) option" where
  "main_stdin count_mode freq_mode stdin (total_words, word_counts, errs) =
     (if count_mode then Some (num_words stdin, word_counts, errs)
      else if freq_mode then
        (case call_count_words word_counts (Ptr stdin) of
           None \<Rightarrow> None
         | Some word_counts' \<Rightarrow> Some (total_words, word_counts', errs))
      else Some (total_words, word_counts, errs))"

fun main_files ::
  "(string \<Rightarrow> char list ptr) \<Rightarrow> bool \<Rightarrow> bool \<Rightarrow> string list
     \<Rightarrow> cint \<times> WordCount list \<times> string list
     \<Rightarrow> (cint \<times> WordCount list \<times> string list) option" where
  "main_files fopen count_mode freq_mode [] s = Some s"
| "main_files fopen count_mode freq_mode (f # fs) (total_words, word_counts, errs) =
     (case fopen f of
        NULL \<Rightarrow> main_files fopen count_mode freq_mode fs (total_words, word_counts, errs @ [f])
      | Ptr infile \<Rightarrow>
          if count_mode then
            main_files fopen count_mode freq_mode fs
              (total_words + num_words infile, word_counts, errs)
          else if freq_mode then
            (case call_count_words word_counts (Ptr infile) of
               None \<Rightarrow> None
             | Some word_counts' \<Rightarrow>
                 main_files fopen count_mode freq_mode fs (total_words, word_counts', errs))
          else main_files fopen count_mode freq_mode fs (total_words, word_counts, errs))"

definition main ::
  "char list \<Rightarrow> string list \<Rightarrow> (string \<Rightarrow> char list ptr) \<Rightarrow> char list
     \<Rightarrow> (cint \<times> report \<times> string list) option" where
  "main opts files fopen stdin =
     (case parse_flags opts (True, False) of
        None \<Rightarrow> Some (display_help, HelpText, [])
      | Some (count_mode, freq_mode) \<Rightarrow>
          if \<not> count_mode \<and> \<not> freq_mode then Some (display_help, SpecifyMode, [])
          else
            (case (if files = [] then
                     main_stdin count_mode freq_mode stdin (0, init_words, [])
                   else main_files fopen count_mode freq_mode files (0, init_words, [])) of
               None \<Rightarrow> None
             | Some (total_words, word_counts, errs) \<Rightarrow>
                 if count_mode then Some (0, TotalWords total_words, errs)
                 else if freq_mode then
                   Some (0, WordFrequencies (wordcount_sort wordcount_less word_counts), errs)
                 else Some (0, NoReport, errs)))"

subsection \<open>The reference scanner\<close>

text \<open>
  Written from the specification, not from the code: \<open>alpha_runs\<close> lists the maximal
  runs of consecutive alphabetic bytes of a stream, in order; a run qualifies as a word
  when it has at least two bytes, and \<open>reference_count\<close> is the number of qualifying
  runs.
\<close>

function alpha_runs :: "char list \<Rightarrow> char list list" where
  "alpha_runs [] = []"
| "alpha_runs (c # cs) =
     (if isalpha c then takeWhile isalpha (c # cs) # alpha_runs (dropWhile isalpha cs)
      else alpha_runs cs)"
  by pat_completeness auto
termination
  by (relation "measure length") (auto simp: length_dropWhile_le less_Suc_eq_le)

definition qualifying_runs :: "char list \<Rightarrow> char list list" where
  "qualifying_runs bs = filter (\<lambda>r. 2 \<le> length r) (alpha_runs bs)"

definition reference_count :: "char list \<Rightarrow> nat" where
  "reference_count bs = length (qualifying_runs bs)"

text \<open>
  What the 32-bit counter \<open>word_length\<close> makes of a run of \<open>l\<close> bytes: the run is counted
  when the wrapped length, read as a signed number, exceeds 1.
\<close>

definition counted32 :: "nat \<Rightarrow> bool" where
  "counted32 l = (1 < sint (of_nat l :: cint))"

definition open_count :: "nat \<Rightarrow> char list \<Rightarrow> nat" where
  "open_count l bs =
     (if counted32 (l + length (takeWhile isalpha bs)) then 1 else 0)
       + length (filter (\<lambda>r. counted32 (length r)) (alpha_runs (dropWhile isalpha bs)))"

subsection \<open>Notions used in the proofs\<close>

text \<open>
  \<open>snoc\<close> in the place of \<open>add_word\<close> makes the table the list of the strings passed, in
  order; \<open>passed_words\<close> is that list for a stream.
\<close>

definition snoc :: "'a list \<Rightarrow> 'a \<Rightarrow> 'a list" where
  "snoc xs x = xs @ [x]"

definition passed_words :: "char list \<Rightarrow> string list" where
  "passed_words bs =
     (case count_words snoc (Ptr []) (Ptr bs) of
        Some (rc, Ptr ws) \<Rightarrow> ws
      | _ \<Rightarrow> [])"

text \<open>
  The lower-case letters of the "C" locale, and the strings the program means to pass
  to \<open>add_word\<close>: 2 to \<open>MAX_WORD_LEN\<close> lower-case letters.
\<close>

definition islower :: "char \<Rightarrow> bool" where
  "islower c = (let n = (of_char c :: nat) in 97 \<le> n \<and> n \<le> 122)"

definition good_word :: "string \<Rightarrow> bool" where
  "good_word w \<longleftrightarrow>
     2 \<le> length w \<and> length w \<le> MAX_WORD_LEN \<and> (\<forall>c\<in>set w. isalpha c \<and> islower c)"

text \<open>
  The invariant of the buffer: \<open>index\<close> lies between 0 and \<open>MAX_WORD_LEN\<close>, and the
  cells below it hold lower-case letters.
\<close>

definition buf_inv :: "buffer \<Rightarrow> cint \<Rightarrow> bool" where
  "buf_inv buf index \<longleftrightarrow>
     length buf = MAX_WORD_LEN + 1 \<and> 0 \<le> sint index \<and> sint index \<le> int MAX_WORD_LEN
     \<and> (\<forall>i < nat (sint index). \<exists>c. buf ! i = Some c \<and> islower c)"

fun trace_inv :: "buffer \<times> cint \<times> string list \<Rightarrow> bool" where
  "trace_inv (buf, index, ws) \<longleftrightarrow> buf_inv buf index \<and> (\<forall>w\<in>set ws. good_word w)"

text \<open>
  Three descriptions of the strings \<open>count_words\<close> passes on. \<open>held\<close> is the string in
  the buffer below \<open>index\<close>. \<open>buffered\<close> is the loop on that string instead of the
  array; \<open>carried\<close> is the same on the runs of the stream, where \<open>p\<close> is what the buffer
  holds when a run starts. \<open>folded_words\<close> is what the specification asks for: every
  qualifying run, in lower case, cut to \<open>MAX_WORD_LEN\<close> letters.
\<close>

fun buffered :: "string \<Rightarrow> char list \<Rightarrow> string list" where
  "buffered cur [] = (if 2 \<le> length cur then [cur] else [])"
| "buffered cur (c # cs) =
     (if isalpha c then
        buffered (if length cur < MAX_WORD_LEN then cur @ [tolower c] else cur) cs
      else if 2 \<le> length cur then cur # buffered [] cs
      else buffered cur cs)"

fun carried :: "string \<Rightarrow> char list list \<Rightarrow> string list" where
  "carried p [] = []"
| "carried p (r # rs) =
     (if 2 \<le> length (take MAX_WORD_LEN (p @ map tolower r))
      then take MAX_WORD_LEN (p @ map tolower r) # carried [] rs
      else carried (take MAX_WORD_LEN (p @ map tolower r)) rs)"

definition folded_words :: "char list \<Rightarrow> string list" where
  "folded_words bs = map (\<lambda>r. take MAX_WORD_LEN (map tolower r)) (qualifying_runs bs)"

definition held :: "buffer \<Rightarrow> cint \<Rightarrow> string" where
  "held buf index = map the (take (nat (sint index)) buf)"

text \<open>The count the table holds for a word.\<close>

definition lookup_count :: "WordCount list \<Rightarrow> string \<Rightarrow> nat" where
  "lookup_count t w = sum_list (map count (filter (\<lambda>wc. word wc = w) t))"

text \<open>
  The streams of the files that open, in command-line order, and the names of those that
  do not.
\<close>

definition opened :: "(string \<Rightarrow> char list ptr) \<Rightarrow> string list \<Rightarrow> char list list" where
  "opened fopen files = concat (map (\<lambda>f. case fopen f of NULL \<Rightarrow> [] | Ptr bs \<Rightarrow> [bs]) files)"

definition unopened :: "(string \<Rightarrow> char list ptr) \<Rightarrow> string list \<Rightarrow> string list" where
  "unopened fopen files = filter (\<lambda>f. fopen f = NULL) files"

text \<open>
  A table is sorted with a comparator when the comparator puts no record before its
  predecessor.
\<close>

definition sorted_with :: "(WordCount \<Rightarrow> WordCount \<Rightarrow> bool) \<Rightarrow> WordCount list \<Rightarrow> bool" where
  "sorted_with cmp wclist = successively (\<lambda>x y. \<not> cmp y x) wclist"

text \<open>A file system with two files, for the examples.\<close>

definition two_files :: "string \<Rightarrow> char list ptr" where
  "two_files f =
     (if f = ''one.txt'' then Ptr ''dog dog''
      else if f = ''two.txt'' then Ptr ''dog cat''
      else NULL)"

section \<open>Properties of the reference scanner\<close>

text \<open>
  The three facts below determine \<open>alpha_runs\<close>: a non-empty stream of letters is one
  run, a byte that is not a letter separates the runs on its two sides, and such
  separators contribute nothing.
\<close>

lemma alpha_runs_all:
  assumes "bs \<noteq> []" and "\<forall>c\<in>set bs. isalpha c"
  shows "alpha_runs bs = [bs]"
proof (cases bs)
  case Nil
  with assms show ?thesis by simp
next
  case (Cons c cs)
  with assms have letters: "\<forall>x\<in>set cs. isalpha x" and "isalpha c"
    by simp_all
  then show ?thesis
    unfolding Cons
    by (simp add: takeWhile_eq_all_conv [THEN iffD2] dropWhile_eq_Nil_conv [THEN iffD2])
qed

lemma alpha_runs_append_sep:
  "\<not> isalpha c \<Longrightarrow> alpha_runs (xs @ c # ys) = alpha_runs xs @ alpha_runs ys"
proof (induction xs rule: alpha_runs.induct)
  case 1
  then show ?case by simp
next
  case (2 x xs)
  show ?case
  proof (cases "isalpha x")
    case False
    with 2 show ?thesis by simp
  next
    case True
    have tw: "takeWhile isalpha (xs @ c # ys) = takeWhile isalpha xs"
      using 2(3) by (induction xs) auto
    have dw: "dropWhile isalpha (xs @ c # ys) = dropWhile isalpha xs @ c # ys"
      using 2(3) by (induction xs) auto
    from True 2 show ?thesis by (simp add: tw dw)
  qed
qed

lemma alpha_runs_split:
  "alpha_runs cs =
     (if takeWhile isalpha cs = [] then [] else [takeWhile isalpha cs])
       @ alpha_runs (dropWhile isalpha cs)"
  by (cases cs) auto

lemma alpha_runs_letters: "r \<in> set (alpha_runs bs) \<Longrightarrow> r \<noteq> [] \<and> (\<forall>c\<in>set r. isalpha c)"
proof (induction bs rule: alpha_runs.induct)
  case 1
  then show ?case by simp
next
  case (2 c cs)
  then show ?case
    by (cases "isalpha c") (auto dest: set_takeWhileD)
qed

text \<open>The runs of a stream are disjoint parts of it.\<close>

lemma alpha_runs_total_length: "sum_list (map length (alpha_runs bs)) \<le> length bs"
proof (induction bs rule: alpha_runs.induct)
  case 1
  then show ?case by simp
next
  case (2 c cs)
  show ?case
  proof (cases "isalpha c")
    case False
    with 2 show ?thesis by simp
  next
    case True
    have "length (takeWhile isalpha cs) + length (dropWhile isalpha cs) = length cs"
      by (metis length_append takeWhile_dropWhile_id)
    with True "2.IH"(1) show ?thesis by simp
  qed
qed

lemma alpha_runs_run_length:
  assumes "r \<in> set (alpha_runs bs)"
  shows "length r \<le> length bs"
proof -
  have "length r \<le> sum_list (map length (alpha_runs bs))"
    using assms by (intro member_le_sum_list) auto
  with alpha_runs_total_length [of bs] show ?thesis by simp
qed

lemma reference_count_le: "reference_count bs \<le> length bs"
proof -
  have "length rs \<le> sum_list (map length rs)" if "\<forall>r\<in>set rs. r \<noteq> []" for rs :: "char list list"
    using that
  proof (induction rs)
    case Nil
    then show ?case by simp
  next
    case (Cons r rs)
    then have "1 \<le> length r" by (cases r) simp_all
    with Cons show ?case by simp
  qed
  then have "length (alpha_runs bs) \<le> sum_list (map length (alpha_runs bs))"
    by (simp add: alpha_runs_letters)
  moreover have "reference_count bs \<le> length (alpha_runs bs)"
    by (simp add: reference_count_def qualifying_runs_def)
  ultimately show ?thesis using alpha_runs_total_length [of bs] by simp
qed

section \<open>Signed 32-bit arithmetic\<close>

lemma sint_of_nat32: "sint (of_nat k :: cint) = (int k + 2 ^ 31) mod 2 ^ 32 - 2 ^ 31"
  using int_word_sint [of "int k", where 'a = 32] by simp

lemma sint_of_nat_small: "k < 2 ^ 31 \<Longrightarrow> sint (of_nat k :: cint) = int k"
  by (simp add: sint_of_nat32)

lemma counted32_small: "l < 2 ^ 31 \<Longrightarrow> counted32 l \<longleftrightarrow> 2 \<le> l"
  by (auto simp: counted32_def sint_of_nat_small)

lemma counted32_0 [simp]: "\<not> counted32 0"
  by (simp add: counted32_def)

lemma counted32_nonzero: "counted32 l \<Longrightarrow> l \<noteq> 0"
  by (cases l) auto

section \<open>What \<open>num_words\<close> computes\<close>

text \<open>
  The loop invariant: after any prefix of the stream, \<open>num_words\<close> is the number of
  closed runs counted so far, \<open>word_length\<close> the length of the open run, both modulo
  \<open>2 ^ 32\<close>, and \<open>in_word\<close> is 1 exactly when a run is open.
\<close>

lemma num_words_loop_count:
  "num_words_end (num_words_loop bs (of_nat n, (if l = 0 then 0 else 1), of_nat l))
     = of_nat (n + open_count l bs)"
proof (induction bs arbitrary: n l)
  case Nil
  then show ?case
    using counted32_nonzero [of l] by (auto simp: open_count_def counted32_def)
next
  case (Cons c cs)
  show ?case
  proof (cases "isalpha c")
    case True
    have "num_words_body c (of_nat n, (if l = 0 then 0 else 1), of_nat l)
            = (of_nat n, (if Suc l = 0 then 0 else 1), of_nat (Suc l))"
      using True by simp
    moreover have "open_count l (c # cs) = open_count (Suc l) cs"
      using True by (simp add: open_count_def)
    ultimately show ?thesis using Cons.IH [of n "Suc l"] by simp
  next
    case False
    have "num_words_body c (of_nat n, (if l = 0 then 0 else 1), of_nat l)
            = (of_nat (n + (if counted32 l then 1 else 0)),
               (if (0::nat) = 0 then 0 else 1), of_nat 0)"
      using False counted32_nonzero [of l] by (auto simp: counted32_def)
    moreover have "open_count l (c # cs) = (if counted32 l then 1 else 0) + open_count 0 cs"
      using False alpha_runs_split [of cs] by (simp add: open_count_def)
    ultimately show ?thesis
      using Cons.IH [of "n + (if counted32 l then 1 else 0)" 0] by (simp add: add.assoc)
  qed
qed

lemma num_words_exact:
  "num_words bs = of_nat (length (filter (\<lambda>r. counted32 (length r)) (alpha_runs bs)))"
proof -
  have "num_words bs
          = num_words_end (num_words_loop bs (of_nat 0, (if (0::nat) = 0 then 0 else 1), of_nat 0))"
    by (simp add: num_words_def)
  also have "\<dots> = of_nat (0 + open_count 0 bs)"
    by (rule num_words_loop_count)
  also have "open_count 0 bs = length (filter (\<lambda>r. counted32 (length r)) (alpha_runs bs))"
    using alpha_runs_split [of bs] by (simp add: open_count_def)
  finally show ?thesis by simp
qed

lemma num_words_reference:
  assumes "\<forall>r\<in>set (alpha_runs bs). length r < 2 ^ 31"
  shows "num_words bs = of_nat (reference_count bs)"
proof -
  have "filter (\<lambda>r. counted32 (length r)) (alpha_runs bs) = qualifying_runs bs"
    unfolding qualifying_runs_def using assms
    by (intro filter_cong) (auto simp: counted32_small)
  then show ?thesis
    by (simp add: num_words_exact reference_count_def)
qed

text \<open>
  Claim C1, as amended. For every input byte stream in which each alphabetic run is
  shorter than \<open>2 ^ 31\<close> bytes and fewer than \<open>2 ^ 31\<close> runs qualify, \<open>num_words\<close> returns
  exactly the number of maximal runs of consecutive alphabetic bytes of length at least
  2, a run still open at the end of the stream included.
\<close>

theorem num_words_counts_runs:
  assumes "\<forall>r\<in>set (alpha_runs bs). length r < 2 ^ 31"
    and "reference_count bs < 2 ^ 31"
  shows "sint (num_words bs) = int (reference_count bs)"
  using assms by (simp add: num_words_reference sint_of_nat_small)

theorem num_words_counts_runs_witness:
  "alpha_runs ''the cat sat on a mat'' = [''the'', ''cat'', ''sat'', ''on'', ''a'', ''mat'']
   \<and> reference_count ''the cat sat on a mat'' = 5
   \<and> sint (num_words ''the cat sat on a mat'') = 5"
proof -
  have runs: "alpha_runs ''the cat sat on a mat''
                = [''the'', ''cat'', ''sat'', ''on'', ''a'', ''mat'']"
    by code_simp
  have cnt: "reference_count ''the cat sat on a mat'' = 5"
    by code_simp
  have h1: "\<forall>r\<in>set (alpha_runs ''the cat sat on a mat''). length r < 2 ^ 31"
    unfolding runs by simp
  have h2: "reference_count ''the cat sat on a mat'' < 2 ^ 31"
    by (simp add: cnt)
  have "sint (num_words ''the cat sat on a mat'') = int 5"
    using num_words_counts_runs [OF h1 h2] by (simp only: cnt)
  then have "sint (num_words ''the cat sat on a mat'') = 5"
    by simp
  with runs cnt show ?thesis by (intro conjI)
qed

text \<open>
  The claim as written, for every stream, fails on a single run of \<open>2 ^ 31\<close> letters:
  it is one qualifying run, but \<open>word_length\<close> has wrapped to the most negative \<open>int\<close>
  when the stream ends, the test \<open>word_length > 1\<close> fails and \<open>num_words\<close> returns 0.
\<close>

theorem num_words_counts_runs_counterexample:
  "reference_count (replicate (2 ^ 31) CHR ''a'') = 1
   \<and> sint (num_words (replicate (2 ^ 31) CHR ''a'')) = 0"
proof -
  let ?bs = "replicate (2 ^ 31) CHR ''a''"
  have "?bs \<noteq> []" by simp
  moreover have "\<forall>c\<in>set ?bs. isalpha c" by (simp add: isalpha_def)
  ultimately have runs: "alpha_runs ?bs = [?bs]" by (rule alpha_runs_all)
  have "\<not> counted32 (2 ^ 31)" by (simp add: counted32_def)
  then have "num_words ?bs = 0"
    by (simp only: num_words_exact runs) simp
  moreover have "reference_count ?bs = 1"
    by (simp only: reference_count_def qualifying_runs_def runs) simp
  ultimately show ?thesis by simp
qed

text \<open>In particular the claim holds for every stream shorter than \<open>2 ^ 31\<close> bytes.\<close>

lemma num_words_short_stream:
  assumes "length bs < 2 ^ 31"
  shows "sint (num_words bs) = int (reference_count bs)"
proof -
  have "\<forall>r\<in>set (alpha_runs bs). length r < 2 ^ 31"
    using assms alpha_runs_run_length [of _ bs] by fastforce
  then have "num_words bs = of_nat (reference_count bs)"
    by (rule num_words_reference)
  moreover have "reference_count bs < 2 ^ 31"
    using assms reference_count_le [of bs] by simp
  ultimately show ?thesis by (simp add: sint_of_nat_small)
qed

section \<open>The buffer of \<open>count_words\<close>\<close>

lemma islower_isalpha: "islower c \<Longrightarrow> isalpha c"
  by (simp add: islower_def isalpha_def Let_def)

lemma islower_tolower: "isalpha c \<Longrightarrow> islower (tolower c)"
  by (auto simp: islower_def isalpha_def tolower_def Let_def)

lemma islower_not_NUL: "islower c \<Longrightarrow> c \<noteq> NUL"
  by (auto simp: islower_def NUL_def Let_def)

lemma sint_succ: "0 \<le> sint (i :: cint) \<Longrightarrow> sint i < 64 \<Longrightarrow> sint (i + 1) = sint i + 1"
  by (simp add: sint_word_add signed_take_bit_int_eq_self)

lemma c_string_prefix:
  "k < length buf \<Longrightarrow> \<forall>i<k. \<exists>c. buf ! i = Some c \<and> c \<noteq> NUL \<Longrightarrow> buf ! k = Some NUL
     \<Longrightarrow> c_string buf = Some (map the (take k buf))"
proof (induction buf arbitrary: k)
  case Nil
  then show ?case by simp
next
  case (Cons x buf)
  show ?case
  proof (cases k)
    case 0
    with Cons.prems show ?thesis by simp
  next
    case (Suc j)
    from Cons.prems(2) Suc obtain c where c: "x = Some c" "c \<noteq> NUL"
      by fastforce
    have "\<forall>i<j. \<exists>c. buf ! i = Some c \<and> c \<noteq> NUL"
      using Cons.prems(2) Suc by fastforce
    with Cons.IH [of j] Cons.prems Suc have "c_string buf = Some (map the (take j buf))"
      by simp
    with c Suc show ?thesis by simp
  qed
qed

lemma buf_inv_index: "buf_inv buf index \<Longrightarrow> nat (sint index) \<le> MAX_WORD_LEN"
  by (auto simp: buf_inv_def)

lemma buf_inv_length: "buf_inv buf index \<Longrightarrow> length buf = Suc MAX_WORD_LEN"
  by (auto simp: buf_inv_def)

lemma store_in_bounds:
  "buf_inv buf index \<Longrightarrow> store buf index c = Some (buf[nat (sint index) := Some c])"
  using buf_inv_index [of buf index] by (simp add: buf_inv_def store_def)

lemma terminate_string:
  assumes "buf_inv buf index"
  shows "c_string (buf[nat (sint index) := Some NUL]) = Some (map the (take (nat (sint index)) buf))"
proof -
  let ?k = "nat (sint index)"
  have k: "?k < length buf"
    using buf_inv_index [OF assms] buf_inv_length [OF assms] by simp
  have "\<forall>i<?k. \<exists>c. (buf[?k := Some NUL]) ! i = Some c \<and> c \<noteq> NUL"
    using assms by (auto simp: buf_inv_def dest: islower_not_NUL)
  moreover have "(buf[?k := Some NUL]) ! ?k = Some NUL" using k by simp
  ultimately have "c_string (buf[?k := Some NUL]) = Some (map the (take ?k (buf[?k := Some NUL])))"
    using k by (intro c_string_prefix) simp_all
  then show ?thesis by simp
qed

lemma passed_word_good:
  assumes "buf_inv buf index" and "1 < sint index"
  shows "good_word (map the (take (nat (sint index)) buf))"
proof -
  let ?k = "nat (sint index)"
  have k: "?k \<le> length buf" "2 \<le> ?k" "?k \<le> MAX_WORD_LEN"
    using buf_inv_index [OF assms(1)] buf_inv_length [OF assms(1)] assms(2) by simp_all
  have "islower c" if "c \<in> set (map the (take ?k buf))" for c
  proof -
    from that obtain i where i: "i < ?k" "c = the (buf ! i)"
      using k(1) by (auto simp: in_set_conv_nth)
    with assms(1) show ?thesis by (auto simp: buf_inv_def)
  qed
  with k show ?thesis by (auto simp: good_word_def islower_isalpha)
qed

lemma buf_inv_append:
  assumes "buf_inv buf index" and "sint index < int MAX_WORD_LEN" and "isalpha c"
  shows "buf_inv (buf[nat (sint index) := Some (tolower c)]) (index + 1)"
proof -
  have s: "sint (index + 1) = sint index + 1"
    using assms by (intro sint_succ) (simp_all add: buf_inv_def MAX_WORD_LEN_def)
  have n: "nat (sint index + 1) = Suc (nat (sint index))"
    using assms by (simp add: buf_inv_def nat_add_distrib)
  have k: "nat (sint index) < length buf"
    using buf_inv_index [OF assms(1)] buf_inv_length [OF assms(1)] by simp
  show ?thesis
    unfolding buf_inv_def s n using assms k
    by (auto simp: buf_inv_def nth_list_update less_Suc_eq islower_tolower)
qed

lemma buf_inv_reset: "buf_inv buf index \<Longrightarrow> buf_inv (buf[k := x]) 0"
  by (simp add: buf_inv_def)

lemma buf_inv_init: "buf_inv uninitialised 0"
  by (simp add: buf_inv_def uninitialised_def)

lemma count_words_body_inv:
  assumes "trace_inv s"
  shows "\<exists>s'. count_words_body snoc c s = Some s' \<and> trace_inv s'"
proof -
  obtain buf index ws where s: "s = (buf, index, ws)" by (cases s)
  with assms have inv: "buf_inv buf index" and ws: "\<forall>w\<in>set ws. good_word w" by simp_all
  show ?thesis
  proof (cases "isalpha c")
    case True
    then show ?thesis
      using inv ws s by (simp add: store_in_bounds buf_inv_append)
  next
    case False
    then show ?thesis
      using inv ws s
      by (simp add: store_in_bounds terminate_string passed_word_good buf_inv_reset snoc_def)
  qed
qed

lemma count_words_loop_inv:
  "trace_inv s \<Longrightarrow> \<exists>s'. count_words_loop snoc bs s = Some s' \<and> trace_inv s'"
proof (induction bs arbitrary: s)
  case Nil
  then show ?case by simp
next
  case (Cons c cs)
  from count_words_body_inv [OF Cons.prems, of c]
  obtain s1 where "count_words_body snoc c s = Some s1" "trace_inv s1" by blast
  with Cons.IH [of s1] show ?case by simp
qed

lemma count_words_end_inv:
  assumes "trace_inv s"
  shows "\<exists>ws'. count_words_end snoc s = Some ws' \<and> (\<forall>w\<in>set ws'. good_word w)"
proof -
  obtain buf index ws where s: "s = (buf, index, ws)" by (cases s)
  with assms have inv: "buf_inv buf index" and ws: "\<forall>w\<in>set ws. good_word w" by simp_all
  then show ?thesis
    using s by (simp add: store_in_bounds terminate_string passed_word_good snoc_def)
qed


section \<open>The calls of \<open>add_word\<close>\<close>

text \<open>
  Whatever \<open>add\<close> is, \<open>count_words\<close> applies it to the strings of \<open>passed_words\<close>, in
  order, and returns 0.
\<close>

lemma count_words_body_calls:
  "count_words_body add c (buf, i, foldl add wl t)
     = map_option (\<lambda>(b, j, t'). (b, j, foldl add wl t')) (count_words_body snoc c (buf, i, t))"
  by (simp add: snoc_def split: option.splits)

lemma count_words_loop_calls:
  "count_words_loop add bs (buf, i, foldl add wl t)
     = map_option (\<lambda>(b, j, t'). (b, j, foldl add wl t')) (count_words_loop snoc bs (buf, i, t))"
proof (induction bs arbitrary: buf i t)
  case Nil
  then show ?case by simp
next
  case (Cons c cs)
  show ?case
  proof (cases "count_words_body snoc c (buf, i, t)")
    case None
    then show ?thesis by (simp add: count_words_body_calls del: count_words_body.simps)
  next
    case (Some s1)
    obtain b1 j1 t1 where s1: "s1 = (b1, j1, t1)" by (cases s1)
    with Some Cons.IH [of b1 j1 t1] show ?thesis
      by (simp add: count_words_body_calls del: count_words_body.simps)
  qed
qed

lemma count_words_end_calls:
  "count_words_end add (buf, i, foldl add wl t)
     = map_option (foldl add wl) (count_words_end snoc (buf, i, t))"
  by (simp add: snoc_def split: option.splits)

lemma count_words_snoc:
  "\<exists>ws. count_words snoc (Ptr []) (Ptr bs) = Some (0, Ptr ws) \<and> (\<forall>w\<in>set ws. good_word w)"
proof -
  have "trace_inv (uninitialised, 0, [])"
    by (simp add: buf_inv_init)
  from count_words_loop_inv [OF this, of bs]
  obtain s where s: "count_words_loop snoc bs (uninitialised, 0, []) = Some s"
    and inv: "trace_inv s" by blast
  from count_words_end_inv [OF inv]
  obtain ws where "count_words_end snoc s = Some ws" "\<forall>w\<in>set ws. good_word w" by blast
  with s show ?thesis by simp
qed

lemma count_words_passed:
  "count_words snoc (Ptr []) (Ptr bs) = Some (0, Ptr (passed_words bs))"
  using count_words_snoc [of bs] by (auto simp: passed_words_def)

lemma passed_words_good: "w \<in> set (passed_words bs) \<Longrightarrow> good_word w"
  using count_words_snoc [of bs] by (auto simp: passed_words_def)

lemma count_words_calls:
  "count_words add (Ptr wl) (Ptr bs) = Some (0, Ptr (foldl add wl (passed_words bs)))"
proof -
  let ?s0 = "(uninitialised, 0 :: cint, [] :: string list)"
  from count_words_passed [of bs]
  obtain s where s: "count_words_loop snoc bs ?s0 = Some s"
    and e: "count_words_end snoc s = Some (passed_words bs)"
    by (auto split: option.splits)
  obtain b j t where sd: "s = (b, j, t)" by (cases s)
  have "count_words_loop add bs (uninitialised, 0, wl) = Some (b, j, foldl add wl t)"
    using s sd count_words_loop_calls [of add bs uninitialised 0 wl "[]"] by simp
  moreover have "count_words_end add (b, j, foldl add wl t) = Some (foldl add wl (passed_words bs))"
    using e sd by (simp add: count_words_end_calls del: count_words_end.simps)
  ultimately show ?thesis by simp
qed

lemma count_words_loop_bounds:
  "\<exists>buf index wl'. count_words_loop add bs (uninitialised, 0, wl) = Some (buf, index, wl')
      \<and> 0 \<le> sint index \<and> sint index \<le> int MAX_WORD_LEN"
proof -
  have "trace_inv (uninitialised, 0, [])"
    by (simp add: buf_inv_init)
  from count_words_loop_inv [OF this, of bs]
  obtain b j t where s: "count_words_loop snoc bs (uninitialised, 0, []) = Some (b, j, t)"
    and inv: "trace_inv (b, j, t)" by (metis prod_cases3)
  have "count_words_loop add bs (uninitialised, 0, wl) = Some (b, j, foldl add wl t)"
    using s count_words_loop_calls [of add bs uninitialised 0 wl "[]"] by simp
  with inv show ?thesis by (simp add: buf_inv_def)
qed

lemma good_word_no_NUL: "good_word w \<Longrightarrow> NUL \<notin> set w"
  by (auto simp: good_word_def dest: islower_not_NUL)

text \<open>
  Claim C8. In \<open>count_words\<close> the buffer index never leaves the range from 0 to
  \<open>MAX_WORD_LEN\<close>, which is 64: after every prefix of the stream the loop has a state,
  that is, no access fell outside the array, and \<open>index\<close> is in that range. Hence every
  call of \<open>add_word\<close> finds a terminated string in the buffer (the run with \<open>snoc\<close>
  returns, and its table is \<open>passed_words\<close>, the strings passed in order), and every
  string passed has at least 2 and at most 64 bytes, none of them \<open>NUL\<close>, all of them
  lower-case letters.
\<close>

theorem count_words_buffer_bounds:
  "MAX_WORD_LEN = 64
   \<and> (\<forall>n. \<exists>buf index wl'.
          count_words_loop add (take n bs) (uninitialised, 0, wl) = Some (buf, index, wl')
          \<and> 0 \<le> sint index \<and> sint index \<le> int MAX_WORD_LEN)
   \<and> count_words snoc (Ptr []) (Ptr bs) = Some (0, Ptr (passed_words bs))
   \<and> (\<forall>w\<in>set (passed_words bs).
          2 \<le> length w \<and> length w \<le> MAX_WORD_LEN \<and> NUL \<notin> set w
          \<and> (\<forall>c\<in>set w. isalpha c \<and> islower c))"
proof (intro conjI allI ballI)
  show "MAX_WORD_LEN = 64" by (simp add: MAX_WORD_LEN_def)
next
  fix n
  show "\<exists>buf index wl'.
          count_words_loop add (take n bs) (uninitialised, 0, wl) = Some (buf, index, wl')
          \<and> 0 \<le> sint index \<and> sint index \<le> int MAX_WORD_LEN"
    by (rule count_words_loop_bounds)
next
  show "count_words snoc (Ptr []) (Ptr bs) = Some (0, Ptr (passed_words bs))"
    by (rule count_words_passed)
next
  fix w assume "w \<in> set (passed_words bs)"
  then have g: "good_word w" by (rule passed_words_good)
  then show "2 \<le> length w" "length w \<le> MAX_WORD_LEN" by (simp_all add: good_word_def)
  from g show "NUL \<notin> set w" by (rule good_word_no_NUL)
  fix c assume "c \<in> set w"
  with g show "isalpha c" "islower c" by (simp_all add: good_word_def)
qed

theorem count_words_buffer_bounds_witness:
  "passed_words ''It is'' = [''it'', ''is'']
   \<and> ''it'' \<in> set (passed_words ''It is'')
   \<and> 2 \<le> length ''it'' \<and> length ''it'' \<le> MAX_WORD_LEN \<and> NUL \<notin> set ''it''
   \<and> (\<exists>buf index wl'.
          count_words_loop snoc (take 2 ''It is'') (uninitialised, 0, []) = Some (buf, index, wl')
          \<and> 0 \<le> sint index \<and> sint index \<le> int MAX_WORD_LEN)"
proof -
  have p: "passed_words ''It is'' = [''it'', ''is'']" by code_simp
  then have m: "''it'' \<in> set (passed_words ''It is'')" by simp
  note t = count_words_buffer_bounds [of snoc "''It is''" "[]"]
  from t m have "2 \<le> length ''it'' \<and> length ''it'' \<le> MAX_WORD_LEN \<and> NUL \<notin> set ''it''"
    by blast
  moreover from t have "\<exists>buf index wl'.
          count_words_loop snoc (take 2 ''It is'') (uninitialised, 0, []) = Some (buf, index, wl')
          \<and> 0 \<le> sint index \<and> sint index \<le> int MAX_WORD_LEN"
    by blast
  ultimately show ?thesis using p m by blast
qed

text \<open>
  Claim C5. \<open>count_words\<close> returns 1 exactly when the table handle or the stream handle
  is \<open>NULL\<close>, and then the handle designates what it designated before; for every pair
  of handles that are both not \<open>NULL\<close> it returns 0.
\<close>

theorem count_words_return_code:
  "(wclist = NULL \<or> infile = NULL \<longrightarrow> count_words add wclist infile = Some (1, wclist))
   \<and> (wclist \<noteq> NULL \<and> infile \<noteq> NULL \<longrightarrow>
        (\<exists>wl'. count_words add wclist infile = Some (0, Ptr wl')))
   \<and> ((\<exists>p. count_words add wclist infile = Some (1, p)) \<longleftrightarrow> wclist = NULL \<or> infile = NULL)"
proof (cases wclist; cases infile)
  fix wl bs assume "wclist = Ptr wl" "infile = Ptr bs"
  then show ?thesis by (simp add: count_words_calls del: count_words.simps)
qed simp_all

theorem count_words_return_code_witness:
  "count_words add_word NULL (Ptr ''ab cd'') = Some (1, NULL)
   \<and> count_words add_word (Ptr init_words) NULL = Some (1, Ptr init_words)
   \<and> (\<exists>wl'. count_words add_word (Ptr init_words) (Ptr ''ab cd'') = Some (0, Ptr wl'))"
  using count_words_return_code [of NULL "Ptr ''ab cd''" add_word]
    count_words_return_code [of "Ptr init_words" NULL add_word]
    count_words_return_code [of "Ptr init_words" "Ptr ''ab cd''" add_word]
  by simp

section \<open>The strings \<open>count_words\<close> passes, by runs\<close>

text \<open>
  The loop on the array is the loop on the string it holds, and that is \<open>carried\<close> on
  the runs of the stream: a run is passed on together with what the buffer held when it
  started, and a buffer of one letter is held over to the next run. On a stream without
  a run of one letter nothing is held over and the strings passed are \<open>folded_words\<close>.
\<close>

lemma length_held: "buf_inv buf index \<Longrightarrow> length (held buf index) = nat (sint index)"
  using buf_inv_index [of buf index] buf_inv_length [of buf index] by (simp add: held_def)

lemma held_append:
  assumes "buf_inv buf index" and "sint index < int MAX_WORD_LEN"
  shows "held (buf[nat (sint index) := Some x]) (index + 1) = held buf index @ [x]"
proof -
  let ?k = "nat (sint index)"
  have s: "sint (index + 1) = sint index + 1"
    using assms by (intro sint_succ) (simp_all add: buf_inv_def MAX_WORD_LEN_def)
  have n: "nat (sint index + 1) = Suc ?k"
    using assms by (simp add: buf_inv_def nat_add_distrib)
  have k: "?k < length buf"
    using buf_inv_index [OF assms(1)] buf_inv_length [OF assms(1)] assms(2) by simp
  then show ?thesis
    unfolding held_def s n by (simp add: take_Suc_conv_app_nth)
qed

lemma held_reset: "held buf 0 = []"
  by (simp add: held_def)

lemma count_words_end_buffered:
  assumes "buf_inv buf index"
  shows "count_words_end snoc (buf, index, ws) = Some (ws @ buffered (held buf index) [])"
proof (cases "1 < sint index")
  case True
  then have "2 \<le> length (held buf index)"
    using length_held [OF assms] by simp
  with True assms show ?thesis
    by (simp add: store_in_bounds terminate_string snoc_def held_def)
next
  case False
  then have "\<not> 2 \<le> length (held buf index)"
    using length_held [OF assms] by simp
  with False show ?thesis by simp
qed

lemma count_words_body_buffered:
  assumes "buf_inv buf index"
  shows "\<exists>buf' index' ws'.
           count_words_body snoc c (buf, index, ws) = Some (buf', index', ws')
           \<and> buf_inv buf' index'
           \<and> (\<forall>cs. ws @ buffered (held buf index) (c # cs)
                      = ws' @ buffered (held buf' index') cs)"
proof -
  have len: "length (held buf index) = nat (sint index)" by (rule length_held [OF assms])
  have pos: "0 \<le> sint index" using assms by (simp add: buf_inv_def)
  show ?thesis
  proof (cases "isalpha c")
    case True
    show ?thesis
    proof (cases "sint index < int MAX_WORD_LEN")
      case less: True
      let ?buf = "buf[nat (sint index) := Some (tolower c)]"
      have "count_words_body snoc c (buf, index, ws) = Some (?buf, index + 1, ws)"
        using True less assms by (simp add: store_in_bounds)
      moreover have "buf_inv ?buf (index + 1)"
        using assms less True by (rule buf_inv_append)
      moreover have "length (held buf index) < MAX_WORD_LEN"
        using less pos len by simp
      then have "buffered (held buf index) (c # cs) = buffered (held ?buf (index + 1)) cs" for cs
        using True by (simp add: held_append [OF assms less])
      ultimately show ?thesis by blast
    next
      case False
      then have "\<not> length (held buf index) < MAX_WORD_LEN"
        using pos len by simp
      then have "buffered (held buf index) (c # cs) = buffered (held buf index) cs" for cs
        using True by simp
      moreover have "count_words_body snoc c (buf, index, ws) = Some (buf, index, ws)"
        using True False by simp
      ultimately show ?thesis using assms by blast
    qed
  next
    case False
    show ?thesis
    proof (cases "1 < sint index")
      case True
      let ?buf = "buf[nat (sint index) := Some NUL]"
      have "count_words_body snoc c (buf, index, ws) = Some (?buf, 0, ws @ [held buf index])"
        using True False assms
        by (simp add: store_in_bounds terminate_string snoc_def held_def)
      moreover have "buf_inv ?buf 0"
        using assms by (rule buf_inv_reset)
      moreover have "2 \<le> length (held buf index)"
        using True len by simp
      then have "ws @ buffered (held buf index) (c # cs)
                   = (ws @ [held buf index]) @ buffered (held ?buf 0) cs" for cs
        using False by (simp add: held_reset)
      ultimately show ?thesis by blast
    next
      case small: False
      then have "\<not> 2 \<le> length (held buf index)"
        using len by simp
      then have "buffered (held buf index) (c # cs) = buffered (held buf index) cs" for cs
        using False by simp
      moreover have "count_words_body snoc c (buf, index, ws) = Some (buf, index, ws)"
        using False small by simp
      ultimately show ?thesis using assms by blast
    qed
  qed
qed

lemma count_words_loop_buffered:
  assumes "buf_inv buf index"
  shows "\<exists>s'. count_words_loop snoc bs (buf, index, ws) = Some s'
            \<and> count_words_end snoc s' = Some (ws @ buffered (held buf index) bs)"
  using assms
proof (induction bs arbitrary: buf index ws)
  case Nil
  then show ?case
    by (simp add: count_words_end_buffered del: count_words_end.simps)
next
  case (Cons c cs)
  from count_words_body_buffered [OF Cons.prems, of c ws]
  obtain buf' index' ws' where
    body: "count_words_body snoc c (buf, index, ws) = Some (buf', index', ws')"
    and inv: "buf_inv buf' index'"
    and eq: "ws @ buffered (held buf index) (c # cs) = ws' @ buffered (held buf' index') cs"
    by blast
  from Cons.IH [OF inv, of ws'] body eq show ?case
    by (simp del: count_words_body.simps count_words_end.simps buffered.simps)
qed

lemma passed_words_buffered: "passed_words bs = buffered [] bs"
proof -
  from count_words_loop_buffered [OF buf_inv_init, of bs "[]"]
  obtain s where "count_words_loop snoc bs (uninitialised, 0, []) = Some s"
    and "count_words_end snoc s = Some (buffered (held uninitialised 0) bs)" by auto
  then show ?thesis by (simp add: passed_words_def held_reset)
qed

lemma buffered_letters:
  assumes "\<forall>c\<in>set l. isalpha c" and "length cur \<le> MAX_WORD_LEN"
  shows "buffered cur (l @ rest) = buffered (take MAX_WORD_LEN (cur @ map tolower l)) rest"
  using assms
proof (induction l arbitrary: cur)
  case Nil
  then show ?case by simp
next
  case (Cons c l)
  show ?case
  proof (cases "length cur < MAX_WORD_LEN")
    case True
    with Cons.IH [of "cur @ [tolower c]"] Cons.prems show ?thesis by simp
  next
    case False
    with Cons.prems have full: "length cur = MAX_WORD_LEN" by simp
    with Cons.IH [of cur] Cons.prems show ?thesis by simp
  qed
qed

lemma buffered_flush:
  "2 \<le> length b \<Longrightarrow> rest = [] \<or> \<not> isalpha (hd rest)
     \<Longrightarrow> buffered b rest = b # buffered [] rest"
  by (cases rest) auto

lemma buffered_carried:
  "length p \<le> 1 \<Longrightarrow> buffered p bs = carried p (alpha_runs bs)"
proof (induction bs arbitrary: p rule: alpha_runs.induct)
  case 1
  then show ?case by simp
next
  case (2 c cs)
  show ?case
  proof (cases "isalpha c")
    case False
    with 2 show ?thesis by simp
  next
    case True
    let ?r = "takeWhile isalpha (c # cs)" and ?rest = "dropWhile isalpha cs"
    let ?b = "take MAX_WORD_LEN (p @ map tolower ?r)"
    have split: "?r @ ?rest = c # cs" using True by simp
    have letters: "\<forall>x\<in>set ?r. isalpha x" by (auto dest: set_takeWhileD)
    have p64: "length p \<le> MAX_WORD_LEN" using "2.prems" by (simp add: MAX_WORD_LEN_def)
    have "buffered p (?r @ ?rest) = buffered ?b ?rest"
      by (rule buffered_letters [OF letters p64])
    then have step: "buffered p (c # cs) = buffered ?b ?rest"
      by (simp only: split)
    have runs: "alpha_runs (c # cs) = ?r # alpha_runs ?rest" using True by simp
    show ?thesis
    proof (cases "2 \<le> length ?b")
      case long: True
      have "?rest = [] \<or> \<not> isalpha (hd ?rest)"
        using hd_dropWhile [of isalpha cs] by blast
      with long have "buffered ?b ?rest = ?b # buffered [] ?rest"
        by (rule buffered_flush)
      moreover have "buffered [] ?rest = carried [] (alpha_runs ?rest)"
        using "2.IH"(1) [OF True, of "[]"] by simp
      ultimately show ?thesis using step long by (simp only: runs carried.simps if_True)
    next
      case short: False
      then have "length ?b \<le> 1" by simp
      from "2.IH"(1) [OF True this] have "buffered ?b ?rest = carried ?b (alpha_runs ?rest)" .
      then show ?thesis using step short by (simp only: runs carried.simps if_False)
    qed
  qed
qed

lemma passed_words_carried: "passed_words bs = carried [] (alpha_runs bs)"
  by (simp add: passed_words_buffered buffered_carried)

lemma carried_clean:
  "\<forall>r\<in>set rs. 2 \<le> length r
     \<Longrightarrow> carried [] rs = map (\<lambda>r. take MAX_WORD_LEN (map tolower r)) rs"
  by (induction rs) (simp_all add: MAX_WORD_LEN_def)

lemma passed_words_clean:
  assumes "\<forall>r\<in>set (alpha_runs bs). length r \<noteq> 1"
  shows "passed_words bs = folded_words bs"
proof -
  have two: "\<forall>r\<in>set (alpha_runs bs). 2 \<le> length r"
  proof
    fix r assume r: "r \<in> set (alpha_runs bs)"
    then have "r \<noteq> []" by (simp add: alpha_runs_letters)
    with assms r show "2 \<le> length r" by (cases r) (auto simp: Suc_le_eq)
  qed
  then have "qualifying_runs bs = alpha_runs bs"
    by (simp add: qualifying_runs_def)
  with two show ?thesis
    by (simp add: passed_words_carried carried_clean folded_words_def)
qed

text \<open>
  The table of the specification: every call of \<open>add_word\<close> adds 1 to the count of its
  word and to no other, and keeps the words of the table distinct.
\<close>

lemma sum_count_add_word: "sum_list (map count (add_word t w)) = Suc (sum_list (map count t))"
  by (induction t) simp_all

lemma sum_count_foldl_add_word:
  "sum_list (map count (foldl add_word t ws)) = sum_list (map count t) + length ws"
  by (induction ws arbitrary: t) (simp_all add: sum_count_add_word)

lemma lookup_count_add_word:
  "lookup_count (add_word t v) w = lookup_count t w + (if v = w then 1 else 0)"
  by (induction t) (auto simp: lookup_count_def)

lemma lookup_count_foldl:
  "lookup_count (foldl add_word t ws) w = lookup_count t w + count_list ws w"
  by (induction ws arbitrary: t) (auto simp: lookup_count_add_word)

lemma words_add_word:
  "map word (add_word t w)
     = (if w \<in> word ` set t then map word t else map word t @ [w])"
  by (induction t) auto

lemma distinct_add_word: "distinct (map word t) \<Longrightarrow> distinct (map word (add_word t w))"
  by (simp add: words_add_word)

lemma distinct_foldl_add_word:
  "distinct (map word t) \<Longrightarrow> distinct (map word (foldl add_word t ws))"
  by (induction ws arbitrary: t) (simp_all add: distinct_add_word)

text \<open>
  On a stream without a run of one letter the two modes agree, within the range of
  \<open>int\<close>, and the count the table holds for a word is the number of qualifying runs
  that are this word once in lower case and cut to \<open>MAX_WORD_LEN\<close> letters.
\<close>

lemma count_words_clean:
  assumes "\<forall>r\<in>set (alpha_runs bs). length r \<noteq> 1"
  shows "count_words add_word (Ptr t) (Ptr bs) = Some (0, Ptr (foldl add_word t (folded_words bs)))"
  using passed_words_clean [OF assms] by (simp add: count_words_calls del: count_words.simps)

lemma counts_sum_clean:
  assumes "\<forall>r\<in>set (alpha_runs bs). length r \<noteq> 1"
    and "\<forall>r\<in>set (alpha_runs bs). length r < 2 ^ 31"
    and "reference_count bs < 2 ^ 31"
  shows "int (sum_list (map count (foldl add_word init_words (passed_words bs))))
           = sint (num_words bs)"
proof -
  have "length (passed_words bs) = reference_count bs"
    by (simp add: passed_words_clean [OF assms(1)] folded_words_def reference_count_def)
  then have "sum_list (map count (foldl add_word init_words (passed_words bs))) = reference_count bs"
    by (simp add: sum_count_foldl_add_word init_words_def)
  moreover have "sint (num_words bs) = int (reference_count bs)"
    using assms(2,3) by (simp add: num_words_reference sint_of_nat_small)
  ultimately show ?thesis by simp
qed

lemma count_list_map: "count_list (map f xs) w = length (filter (\<lambda>x. f x = w) xs)"
  by (induction xs) simp_all

lemma lookup_count_init: "lookup_count init_words w = 0"
  by (simp add: lookup_count_def init_words_def)

lemma truncated_words_collide:
  assumes "\<forall>r\<in>set (alpha_runs bs). length r \<noteq> 1"
  shows "lookup_count (foldl add_word init_words (passed_words bs)) w
           = length (filter (\<lambda>r. take MAX_WORD_LEN (map tolower r) = w) (qualifying_runs bs))"
  unfolding passed_words_clean [OF assms] folded_words_def lookup_count_foldl
  by (simp add: lookup_count_init count_list_map)

section \<open>The single letter that is not dropped\<close>

text \<open>
  When a byte that is not a letter follows a run of one letter, \<open>count_words\<close> neither
  passes the buffer on nor sets \<open>index\<close> back to 0, as \<open>num_words\<close> does for its
  \<open>word_length\<close>: the letter stays in the buffer and becomes the first letter of the
  next string passed to \<open>add_word\<close>.
\<close>

lemma num_words_single_letters:
  assumes "\<forall>r\<in>set (alpha_runs bs). length r = 1"
  shows "num_words bs = 0"
proof -
  have "\<not> counted32 1" by (simp add: counted32_def)
  with assms have "filter (\<lambda>r. counted32 (length r)) (alpha_runs bs) = []"
    by (simp add: filter_empty_conv)
  then show ?thesis by (simp add: num_words_exact)
qed

text \<open>
  Claim C2 says that a run of exactly one letter is dropped in both modes, and that
  the input \<open>a b c\<close> leaves the frequency table empty. On that input \<open>num_words\<close>
  returns 0, but \<open>count_words\<close> passes the string \<open>ab\<close> to \<open>add_word\<close>, and the table
  holds the record \<open>ab\<close> with count 1.
\<close>

theorem single_letter_run_carried:
  "sint (num_words ''a b c'') = 0
   \<and> passed_words ''a b c'' = [''ab'']
   \<and> count_words add_word (Ptr init_words) (Ptr ''a b c'')
       = Some (0, Ptr [\<lparr>word = ''ab'', count = 1\<rparr>])"
  by code_simp

text \<open>
  Claim C3 says that the counts in the table add up to what \<open>num_words\<close> returns on
  the same stream. On the input \<open>x y\<close> the table holds one record, \<open>xy\<close> with count 1,
  so the counts add up to 1, and \<open>num_words\<close> returns 0.
\<close>

theorem counts_sum_exceeds_num_words:
  "passed_words ''x y'' = [''xy'']
   \<and> count_words add_word (Ptr init_words) (Ptr ''x y'')
       = Some (0, Ptr [\<lparr>word = ''xy'', count = 1\<rparr>])
   \<and> sum_list (map count [\<lparr>word = ''xy'', count = 1\<rparr>]) = 1
   \<and> sint (num_words ''x y'') = 0"
  by code_simp

text \<open>
  Claim C6 says that a run longer than \<open>MAX_WORD_LEN\<close> is stored cut to its first 64
  letters, and that two words that agree on their first 64 letters become one record.
  On the input below the two long words are 64 letters \<open>x\<close> followed by \<open>y\<close> and by \<open>z\<close>.
  The first is stored as the \<open>a\<close> of the run before it and 63 letters \<open>x\<close>, the second
  as 64 letters \<open>x\<close>: two records with count 1 each, not one record with count 2.
\<close>

theorem truncation_after_single_letter:
  "passed_words (''a '' @ replicate 64 CHR ''x'' @ ''y '' @ replicate 64 CHR ''x'' @ ''z'')
     = [CHR ''a'' # replicate 63 CHR ''x'', replicate 64 CHR ''x'']
   \<and> count_words add_word (Ptr init_words)
        (Ptr (''a '' @ replicate 64 CHR ''x'' @ ''y '' @ replicate 64 CHR ''x'' @ ''z''))
       = Some (0, Ptr [\<lparr>word = CHR ''a'' # replicate 63 CHR ''x'', count = 1\<rparr>,
                       \<lparr>word = replicate 64 CHR ''x'', count = 1\<rparr>])"
  by code_simp

section \<open>The order of the comparator\<close>

lemma of_char_NUL: "of_char c = (0::nat) \<longleftrightarrow> c = NUL"
proof -
  have "of_char NUL = (0::nat)" by (simp add: NUL_def)
  then show ?thesis by (metis of_char_eq_iff)
qed

lemma strcmp_less: "NUL \<notin> set b \<Longrightarrow> strcmp a b < 0 \<longleftrightarrow> a < b"
proof (induction a b rule: strcmp.induct)
  case 1
  then show ?case by simp
next
  case (2 b bs)
  then have "of_char b \<noteq> (0::nat)" by (auto simp: of_char_NUL)
  then show ?case by simp
next
  case (3 a as)
  then show ?case by simp
next
  case (4 a as b bs)
  then show ?case by (auto simp: less_char_def)
qed

lemma wordcount_less_iff:
  assumes "NUL \<notin> set (word b)"
  shows "wordcount_less a b \<longleftrightarrow> count a < count b \<or> (count a = count b \<and> word a < word b)"
  using assms by (auto simp: wordcount_less_def strcmp_less)

lemma successively_nth:
  "successively P xs \<Longrightarrow> Suc i < length xs \<Longrightarrow> P (xs ! i) (xs ! Suc i)"
proof (induction P xs arbitrary: i rule: successively.induct)
  case (3 P x y xs)
  then show ?case by (cases i) auto
qed simp_all

text \<open>
  Claim C4. On records whose words are C strings (they hold no \<open>NUL\<close>), the comparator
  orders by ascending count and, when the counts are equal, by ascending byte-wise
  lexicographic order of the words. Consequently, in a table sorted with this
  comparator, every adjacent pair \<open>A\<close>, \<open>B\<close> has \<open>count A < count B\<close>, or
  \<open>count A = count B\<close> and \<open>word A \<le> word B\<close>.
\<close>

theorem wordcount_less_order:
  "(NUL \<notin> set (word a) \<and> NUL \<notin> set (word b) \<longrightarrow>
      (wordcount_less a b \<longleftrightarrow>
         count a < count b \<or> (count a = count b \<and> word a < word b)))
   \<and> ((\<forall>wc\<in>set wclist. NUL \<notin> set (word wc)) \<and> sorted_with wordcount_less wclist \<longrightarrow>
        (\<forall>i. Suc i < length wclist \<longrightarrow>
           count (wclist ! i) < count (wclist ! Suc i)
           \<or> (count (wclist ! i) = count (wclist ! Suc i)
               \<and> word (wclist ! i) \<le> word (wclist ! Suc i))))"
proof (intro conjI impI allI)
  assume "NUL \<notin> set (word a) \<and> NUL \<notin> set (word b)"
  then show "wordcount_less a b \<longleftrightarrow>
         count a < count b \<or> (count a = count b \<and> word a < word b)"
    by (simp add: wordcount_less_iff)
next
  fix i
  assume h: "(\<forall>wc\<in>set wclist. NUL \<notin> set (word wc)) \<and> sorted_with wordcount_less wclist"
    and i: "Suc i < length wclist"
  let ?A = "wclist ! i" and ?B = "wclist ! Suc i"
  from h i have "\<not> wordcount_less ?B ?A"
    unfolding sorted_with_def by (blast dest: successively_nth)
  moreover from h i have "NUL \<notin> set (word ?A)" by simp
  ultimately have "\<not> (count ?B < count ?A \<or> (count ?B = count ?A \<and> word ?B < word ?A))"
    by (simp add: wordcount_less_iff)
  then show "count ?A < count ?B \<or> (count ?A = count ?B \<and> word ?A \<le> word ?B)"
    by auto
qed

text \<open>
  The sort modelled from the specification delivers such a table for every comparator
  that never orders two records both ways, as \<open>wordcount_less\<close>.
\<close>

lemma wordcount_less_asym: "wordcount_less a b \<Longrightarrow> \<not> wordcount_less b a"
proof -
  have "strcmp x y < 0 \<Longrightarrow> \<not> strcmp y x < 0" for x y
    by (induction x y rule: strcmp.induct) (auto split: if_splits)
  then show "wordcount_less a b \<Longrightarrow> \<not> wordcount_less b a"
    by (auto simp: wordcount_less_def split: if_splits)
qed

lemma sorted_with_insert:
  assumes "\<And>a b. cmp a b \<Longrightarrow> \<not> cmp b a" and "sorted_with cmp xs"
  shows "sorted_with cmp (wordcount_insert cmp wc xs)"
  using assms(2)
proof (induction xs)
  case Nil
  then show ?case by (simp add: sorted_with_def)
next
  case (Cons x xs)
  then show ?case
    using assms(1) by (cases xs) (auto simp: sorted_with_def)
qed

lemma wordcount_sort_sorted:
  assumes "\<And>a b. cmp a b \<Longrightarrow> \<not> cmp b a"
  shows "sorted_with cmp (wordcount_sort cmp wclist)"
proof (induction wclist)
  case Nil
  show ?case by (simp add: wordcount_sort_def sorted_with_def)
next
  case (Cons wc wclist)
  then show ?case
    using sorted_with_insert [OF assms] by (simp add: wordcount_sort_def)
qed

lemma set_wordcount_insert: "set (wordcount_insert cmp wc xs) = insert wc (set xs)"
  by (induction xs) auto

lemma set_wordcount_sort: "set (wordcount_sort cmp wclist) = set wclist"
  by (induction wclist) (simp_all add: wordcount_sort_def set_wordcount_insert)

lemma length_wordcount_sort: "length (wordcount_sort cmp wclist) = length wclist"
proof -
  have "length (wordcount_insert cmp wc xs) = Suc (length xs)" for wc xs
    by (induction xs) auto
  then show ?thesis by (induction wclist) (simp_all add: wordcount_sort_def)
qed

theorem wordcount_less_order_witness:
  "wordcount_sort wordcount_less
      [\<lparr>word = ''the'', count = 2\<rparr>, \<lparr>word = ''on'', count = 1\<rparr>, \<lparr>word = ''cat'', count = 1\<rparr>]
     = [\<lparr>word = ''cat'', count = 1\<rparr>, \<lparr>word = ''on'', count = 1\<rparr>, \<lparr>word = ''the'', count = 2\<rparr>]
   \<and> wordcount_less \<lparr>word = ''cat'', count = 1\<rparr> \<lparr>word = ''on'', count = 1\<rparr>
   \<and> ''cat'' < ''on''
   \<and> ''cat'' \<le> ''on''
   \<and> (1::nat) < 2"
proof -
  let ?t = "[\<lparr>word = ''cat'', count = 1\<rparr>, \<lparr>word = ''on'', count = 1\<rparr>, \<lparr>word = ''the'', count = 2\<rparr>]"
  let ?a = "\<lparr>word = ''cat'', count = 1\<rparr>" and ?b = "\<lparr>word = ''on'', count = 1\<rparr>"
  have srt: "wordcount_sort wordcount_less
      [\<lparr>word = ''the'', count = 2\<rparr>, \<lparr>word = ''on'', count = 1\<rparr>, \<lparr>word = ''cat'', count = 1\<rparr>] = ?t"
    by code_simp
  have nul: "\<forall>wc\<in>set ?t. NUL \<notin> set (word wc)" by (simp add: NUL_def)
  have sw: "sorted_with wordcount_less ?t"
    using wordcount_sort_sorted [of wordcount_less, OF wordcount_less_asym] srt by metis
  have ab: "NUL \<notin> set (word ?a) \<and> NUL \<notin> set (word ?b)" by (simp add: NUL_def)
  note t = wordcount_less_order [of ?a ?b ?t]
  from t ab have "wordcount_less ?a ?b \<longleftrightarrow>
      count ?a < count ?b \<or> (count ?a = count ?b \<and> word ?a < word ?b)" by blast
  moreover have lt: "''cat'' < ''on''" by simp
  ultimately have wl: "wordcount_less ?a ?b" by simp
  from t nul sw have "\<forall>i. Suc i < length ?t \<longrightarrow>
           count (?t ! i) < count (?t ! Suc i)
           \<or> (count (?t ! i) = count (?t ! Suc i) \<and> word (?t ! i) \<le> word (?t ! Suc i))"
    by blast
  from this [rule_format, of 0] have "''cat'' \<le> ''on''" by simp
  with srt wl lt show ?thesis by simp
qed

section \<open>The driver\<close>

lemma call_count_words_calls:
  "call_count_words word_counts (Ptr infile)
     = Some (foldl add_word word_counts (passed_words infile))"
  by (simp add: call_count_words_def count_words_calls del: count_words.simps)

lemma main_stdin_returns: "\<exists>s'. main_stdin count_mode freq_mode stdin s = Some s'"
proof -
  obtain tw wc errs where s: "s = (tw, wc, errs)" by (metis prod_cases3)
  then show ?thesis by (auto simp: call_count_words_calls)
qed

lemma main_files_returns: "\<exists>s'. main_files fopen count_mode freq_mode files s = Some s'"
proof (induction files arbitrary: s)
  case Nil
  show ?case by (rule exI [of _ s]) simp
next
  case (Cons f fs)
  obtain tw wc errs where s: "s = (tw, wc, errs)" by (metis prod_cases3)
  show ?case
  proof (cases "fopen f")
    case NULL
    with s Cons.IH show ?thesis by simp
  next
    case (Ptr infile)
    with s show ?thesis
      using Cons.IH [of "(tw + num_words infile, wc, errs)"]
        Cons.IH [of "(tw, foldl add_word wc (passed_words infile), errs)"]
        Cons.IH [of "(tw, wc, errs)"]
      by (auto simp: call_count_words_calls)
  qed
qed

lemma main_files_freq:
  "main_files fopen False True files (total_words, word_counts, errs)
     = Some (total_words,
             foldl add_word word_counts (concat (map passed_words (opened fopen files))),
             errs @ unopened fopen files)"
proof (induction files arbitrary: word_counts errs)
  case Nil
  then show ?case by (simp add: opened_def unopened_def)
next
  case (Cons f fs)
  show ?case
  proof (cases "fopen f")
    case NULL
    with Cons.IH show ?thesis by (simp add: opened_def unopened_def)
  next
    case (Ptr infile)
    with Cons.IH show ?thesis
      by (simp add: call_count_words_calls opened_def unopened_def)
  qed
qed

lemma main_files_count:
  "main_files fopen True freq_mode files (total_words, word_counts, errs)
     = Some (total_words + sum_list (map num_words (opened fopen files)),
             word_counts, errs @ unopened fopen files)"
proof (induction files arbitrary: total_words errs)
  case Nil
  then show ?case by (simp add: opened_def unopened_def)
next
  case (Cons f fs)
  show ?case
  proof (cases "fopen f")
    case NULL
    with Cons.IH show ?thesis by (simp add: opened_def unopened_def)
  next
    case (Ptr infile)
    with Cons.IH show ?thesis
      by (simp add: opened_def unopened_def add.assoc)
  qed
qed

lemma main_frequency_mode:
  assumes "parse_flags opts (True, False) = Some (False, True)" and "files \<noteq> []"
  shows "main opts files fopen stdin
        = Some (0,
                WordFrequencies (wordcount_sort wordcount_less
                  (foldl add_word init_words (concat (map passed_words (opened fopen files))))),
                unopened fopen files)"
  using assms by (simp add: main_def main_files_freq)

lemma main_count_mode:
  assumes "parse_flags opts (True, False) = Some (True, False)" and "files \<noteq> []"
  shows "main opts files fopen stdin
          = Some (0, TotalWords (sum_list (map num_words (opened fopen files))),
                  unopened fopen files)"
  using assms by (simp add: main_def main_files_count)

text \<open>
  Claim C7. When files are given, their contributions accumulate into one result. In
  frequency mode the table reported is the sorted table that \<open>add_word\<close> builds from the
  words of all the files that open, in order, starting from one empty table; with the
  two files \<open>dog dog\<close> and \<open>dog cat\<close> the report is \<open>cat\<close> 1, \<open>dog\<close> 3. In total-count
  mode the number reported is the sum of what \<open>num_words\<close> returns on the files that
  open.
\<close>

theorem main_accumulates:
  "(parse_flags opts (True, False) = Some (False, True) \<and> files \<noteq> [] \<longrightarrow>
      main opts files fopen stdin
        = Some (0,
                WordFrequencies (wordcount_sort wordcount_less
                  (foldl add_word init_words (concat (map passed_words (opened fopen files))))),
                unopened fopen files))
   \<and> (parse_flags opts (True, False) = Some (True, False) \<and> files \<noteq> [] \<longrightarrow>
        main opts files fopen stdin
          = Some (0, TotalWords (sum_list (map num_words (opened fopen files))),
                  unopened fopen files))
   \<and> main ''f'' [''one.txt'', ''two.txt''] two_files stdin
       = Some (0, WordFrequencies [\<lparr>word = ''cat'', count = 1\<rparr>, \<lparr>word = ''dog'', count = 3\<rparr>], [])"
proof -
  have p: "parse_flags ''f'' (True, False) = Some (False, True)" by simp
  have f: "[''one.txt'', ''two.txt''] \<noteq> []" by simp
  have o: "opened two_files [''one.txt'', ''two.txt''] = [''dog dog'', ''dog cat'']"
    by (simp add: opened_def two_files_def)
  have u: "unopened two_files [''one.txt'', ''two.txt''] = []"
    by (simp add: unopened_def two_files_def)
  have w: "wordcount_sort wordcount_less
             (foldl add_word init_words (concat (map passed_words [''dog dog'', ''dog cat''])))
           = [\<lparr>word = ''cat'', count = 1\<rparr>, \<lparr>word = ''dog'', count = 3\<rparr>]"
    by code_simp
  have "main ''f'' [''one.txt'', ''two.txt''] two_files stdin
       = Some (0, WordFrequencies [\<lparr>word = ''cat'', count = 1\<rparr>, \<lparr>word = ''dog'', count = 3\<rparr>], [])"
    using main_frequency_mode [OF p f, of two_files stdin] by (simp only: o u w)
  then show ?thesis
    using main_frequency_mode [of opts files fopen stdin]
      main_count_mode [of opts files fopen stdin] by blast
qed

theorem main_accumulates_witness:
  "parse_flags ''cf'' (True, False) = Some (False, True)
   \<and> main ''cf'' [''one.txt'', ''none.txt'', ''two.txt''] two_files ''''
       = Some (0, WordFrequencies [\<lparr>word = ''cat'', count = 1\<rparr>, \<lparr>word = ''dog'', count = 3\<rparr>],
               [''none.txt''])
   \<and> parse_flags ''c'' (True, False) = Some (True, False)
   \<and> main ''c'' [''one.txt'', ''none.txt'', ''two.txt''] two_files ''''
       = Some (0, TotalWords 4, [''none.txt''])"
proof -
  let ?files = "[''one.txt'', ''none.txt'', ''two.txt'']"
  have p1: "parse_flags ''cf'' (True, False) = Some (False, True)" by simp
  have p2: "parse_flags ''c'' (True, False) = Some (True, False)" by simp
  have o: "opened two_files ?files = [''dog dog'', ''dog cat'']"
    by (simp add: opened_def two_files_def)
  have u: "unopened two_files ?files = [''none.txt'']"
    by (simp add: unopened_def two_files_def)
  have w: "wordcount_sort wordcount_less
             (foldl add_word init_words (concat (map passed_words [''dog dog'', ''dog cat''])))
           = [\<lparr>word = ''cat'', count = 1\<rparr>, \<lparr>word = ''dog'', count = 3\<rparr>]"
    by code_simp
  have n: "sum_list (map num_words [''dog dog'', ''dog cat'']) = 4"
    by code_simp
  have "main ''cf'' ?files two_files ''''
       = Some (0, WordFrequencies [\<lparr>word = ''cat'', count = 1\<rparr>, \<lparr>word = ''dog'', count = 3\<rparr>],
               [''none.txt''])"
    using main_accumulates [of "''cf''" ?files two_files "''''"] p1
    by (simp only: o u w) simp
  moreover have "main ''c'' ?files two_files '''' = Some (0, TotalWords 4, [''none.txt''])"
    using main_accumulates [of "''c''" ?files two_files "''''"] p2
    by (simp only: o u n) simp
  ultimately show ?thesis using p1 p2 by blast
qed

lemma parse_flags_modes:
  "parse_flags opts (c0, f0) = Some (count_mode, freq_mode) \<Longrightarrow> c0 \<noteq> f0
     \<Longrightarrow> count_mode \<noteq> freq_mode"
proof (induction opts arbitrary: c0 f0)
  case Nil
  then show ?case by simp
next
  case (Cons opt opts)
  show ?case
  proof (cases "opt = CHR ''c''")
    case True
    with Cons.prems(1) have "parse_flags opts (True, False) = Some (count_mode, freq_mode)"
      by simp
    then show ?thesis by (rule Cons.IH) simp
  next
    case False
    show ?thesis
    proof (cases "opt = CHR ''f''")
      case True
      with False Cons.prems(1) have "parse_flags opts (False, True) = Some (count_mode, freq_mode)"
        by simp
      then show ?thesis by (rule Cons.IH) simp
    next
      case False
      with \<open>opt \<noteq> CHR ''c''\<close> Cons.prems(1) show ?thesis by simp
    qed
  qed
qed

text \<open>
  Claim C9. For every command line on which the option loop does not return through
  \<open>display_help\<close>, the process ends with exit status 0, whatever \<open>count_words\<close> returns
  and whichever files fail to open.
\<close>

theorem main_exit_status:
  "parse_flags opts (True, False) \<noteq> None \<longrightarrow>
     (\<exists>rep errs. main opts files fopen stdin = Some (0, rep, errs))"
proof
  assume "parse_flags opts (True, False) \<noteq> None"
  then obtain cm fm where p: "parse_flags opts (True, False) = Some (cm, fm)" by auto
  then have ne: "cm \<noteq> fm" by (rule parse_flags_modes) simp
  show "\<exists>rep errs. main opts files fopen stdin = Some (0, rep, errs)"
  proof (cases "files = []")
    case True
    from main_stdin_returns [of cm fm stdin "(0, init_words, [])"]
    obtain tw wc errs where "main_stdin cm fm stdin (0, init_words, []) = Some (tw, wc, errs)"
      by (metis prod_cases3)
    with p ne True show ?thesis by (auto simp: main_def simp del: main_stdin.simps)
  next
    case False
    from main_files_returns [of fopen cm fm files "(0, init_words, [])"]
    obtain tw wc errs where "main_files fopen cm fm files (0, init_words, []) = Some (tw, wc, errs)"
      by (metis prod_cases3)
    with p ne False show ?thesis by (auto simp: main_def)
  qed
qed

theorem main_exit_status_witness:
  "parse_flags ''f'' (True, False) = Some (False, True)
   \<and> (\<exists>rep errs. main ''f'' [''none.txt''] two_files '''' = Some (0, rep, errs))"
proof -
  have p: "parse_flags ''f'' (True, False) = Some (False, True)" by simp
  then have "parse_flags ''f'' (True, False) \<noteq> None" by simp
  with main_exit_status [of "''f''" "[''none.txt'']" two_files "''''"] p
  show ?thesis by blast
qed

text \<open>
  Claim C10. After the option loop exactly one of \<open>count_mode\<close> and \<open>freq_mode\<close> is
  true, for every sequence of options; so \<open>main\<close> never takes the branch that prints
  \<open>Please specify a mode.\<close>
\<close>

theorem modes_exclusive:
  "(parse_flags opts (True, False) = Some (count_mode, freq_mode) \<longrightarrow>
      (count_mode \<or> freq_mode) \<and> \<not> (count_mode \<and> freq_mode))
   \<and> (\<forall>rc errs. main opts files fopen stdin \<noteq> Some (rc, SpecifyMode, errs))"
proof (intro conjI impI allI)
  assume "parse_flags opts (True, False) = Some (count_mode, freq_mode)"
  then have "count_mode \<noteq> freq_mode" by (rule parse_flags_modes) simp
  then show "count_mode \<or> freq_mode" "\<not> (count_mode \<and> freq_mode)" by auto
next
  fix rc errs
  show "main opts files fopen stdin \<noteq> Some (rc, SpecifyMode, errs)"
  proof (cases "parse_flags opts (True, False)")
    case None
    then show ?thesis by (simp add: main_def)
  next
    case (Some m)
    obtain cm fm where m: "m = (cm, fm)" by (cases m)
    with Some have "cm \<noteq> fm" by (auto dest: parse_flags_modes)
    with Some m show ?thesis
      by (auto simp: main_def split: option.splits)
  qed
qed

theorem modes_exclusive_witness:
  "parse_flags ''cfcf'' (True, False) = Some (False, True)
   \<and> (False \<or> True) \<and> \<not> (False \<and> True)
   \<and> main ''cfcf'' [] two_files ''to be'' = Some (0, WordFrequencies [\<lparr>word = ''be'', count = 1\<rparr>, \<lparr>word = ''to'', count = 1\<rparr>], [])"
proof -
  have p: "parse_flags ''cfcf'' (True, False) = Some (False, True)" by simp
  have m: "main ''cfcf'' [] two_files ''to be'' = Some (0, WordFrequencies [\<lparr>word = ''be'', count = 1\<rparr>, \<lparr>word = ''to'', count = 1\<rparr>], [])"
    by code_simp
  from modes_exclusive [of "''cfcf''" False True "[]" two_files "''to be''"] p
  have "(False \<or> True) \<and> \<not> (False \<and> True)" by blast
  with p m show ?thesis by blast
qed

end
